theory Spec2Isabelle
  imports Main "HOL-Library.Word"
begin

section \<open>The renter's memory manager\<close>

text \<open>
  The manager accounts a scalar quota of bytes. Every counter of the Go struct is a
  \<open>uint64\<close>, modelled as a 64-bit word: \<open>+\<close> and \<open>-\<close> wrap around modulo
  \<open>2 ^ 64\<close> and \<open>\<le>\<close> compares unsigned values, as Go does. The mutex is not
  modelled: every operation below is one critical section, run from start to end.
\<close>

type_synonym uint64 = "64 word"

text \<open>A channel is known by its identity; \<open>make(chan struct{})\<close> yields a new one.\<close>

type_synonym chan = nat

text \<open>\<open>memoryRequest\<close>: one thread blocked while waiting for memory.\<close>

record memoryRequest =
  amount :: uint64
  done_chan :: chan

text \<open>
  \<open>memoryManager\<close>. The field \<open>blocking\<close> is the number of notes buffered in the
  channel of that name, which \<open>newMemoryManager\<close> makes with capacity one. The
  \<open>stop\<close> channel is owned by the caller and only read inside \<open>Request\<close>.
\<close>

record memoryManager =
  available :: uint64
  base :: uint64
  memSinceGC :: uint64
  priorityReserve :: uint64
  underflow :: uint64
  fifo :: "memoryRequest list"
  priorityFifo :: "memoryRequest list"
  blocking :: nat

text \<open>
  What an operation does besides updating the manager: the two runtime calls of the
  manual garbage collection, a report to \<open>build.Critical\<close>, and the closing of a
  waiter's \<open>done\<close> channel, which releases that waiter.
\<close>

datatype event = RuntimeGC | FreeOSMemory | Critical string | CloseChan chan

text \<open>
  Modelled from the spec: the constants \<open>memoryPriorityHigh\<close> and
  \<open>memoryPriorityLow\<close> are declared elsewhere in the package. \<open>Request\<close> compares
  its boolean \<open>priority\<close> with the first and files a request under
  \<open>priorityFifo\<close> when \<open>priority\<close> is true, so high is true and low is false.
\<close>

definition memoryPriorityHigh :: bool where
  "memoryPriorityHigh = True"

definition memoryPriorityLow :: bool where
  "memoryPriorityLow = False"

text \<open>
  Modelled from the spec: \<open>build.Critical\<close> is a function of the imported package
  \<open>build\<close>. The spec asks of the assertion reporter that it records the violation
  and must not terminate the process, so the call leaves one event and returns.
\<close>

definition build_Critical :: "string \<Rightarrow> event list" where
  "build_Critical msg = [Critical msg]"

subsection \<open>try\<close>

text \<open>The test of the first branch of \<open>try\<close>, on \<open>uint64\<close> values as written.\<close>

definition normalGrant :: "memoryManager \<Rightarrow> uint64 \<Rightarrow> bool \<Rightarrow> bool" where
  "normalGrant mm amt priority \<longleftrightarrow>
     amt + priorityReserve mm \<le> available mm \<or> (priority \<and> amt \<le> available mm)"

text \<open>The test of the second branch: nothing is in use and the request takes it all.\<close>

definition oversizedGrant :: "memoryManager \<Rightarrow> uint64 \<Rightarrow> bool" where
  "oversizedGrant mm amt \<longleftrightarrow> available mm = base mm \<and> available mm \<le> amt"

text \<open>
  \<open>try\<close> returns whether the request was granted, and the manager as the call leaves
  it.
\<close>

definition try_mm :: "memoryManager \<Rightarrow> uint64 \<Rightarrow> bool \<Rightarrow> bool \<times> memoryManager" where
  "try_mm mm amt priority =
     (if normalGrant mm amt priority then
        (True, mm\<lparr>available := available mm - amt\<rparr>)
      else if oversizedGrant mm amt then
        (True, mm\<lparr>available := 0, underflow := amt - base mm\<rparr>)
      else (False, mm))"

subsection \<open>Request\<close>

text \<open>
  A call of \<open>Request\<close> either returns true at once or joins a queue and blocks in the
  final \<open>select\<close>. The new channel of the waiter is an argument. A blocked call
  returns when one of its two channels is closed.
\<close>

datatype outcome = Granted | Blocked memoryRequest

datatype wake = DoneClosed | StopClosed

fun unblock :: "wake \<Rightarrow> bool" where
  "unblock DoneClosed = True"
| "unblock StopClosed = False"

definition Request :: "memoryManager \<Rightarrow> uint64 \<Rightarrow> bool \<Rightarrow> chan \<Rightarrow> outcome \<times> memoryManager" where
  "Request mm amt priority ch =
     (let shouldTry = (length (priorityFifo mm) = 0 \<and>
                        (priority = memoryPriorityHigh \<or> length (fifo mm) = 0));
          tried = (if shouldTry then try_mm mm amt priority else (False, mm));
          mm1 = snd tried
      in if shouldTry \<and> fst tried then (Granted, mm1)
         else
           let myRequest = \<lparr>amount = amt, done_chan = ch\<rparr>;
               mm2 = (if priority then mm1\<lparr>priorityFifo := priorityFifo mm1 @ [myRequest]\<rparr>
                      else mm1\<lparr>fifo := fifo mm1 @ [myRequest]\<rparr>);
               mm3 = mm2\<lparr>blocking := (if blocking mm2 < 1 then blocking mm2 + 1 else blocking mm2)\<rparr>
           in (Blocked myRequest, mm3))"

subsection \<open>Return\<close>

text \<open>
  The two loops at the end of \<open>Return\<close>. Each gives the channels it closed, whether
  it ran to the end of its queue (false: it left through the \<open>return\<close> inside the
  loop), and the manager.
\<close>

function drainPriority :: "memoryManager \<Rightarrow> event list \<times> bool \<times> memoryManager" where
  "drainPriority mm =
     (if length (priorityFifo mm) > 0 then
        (let tried = try_mm mm (amount (priorityFifo mm ! 0)) memoryPriorityHigh;
             mm1 = snd tried
         in if \<not> fst tried then ([], False, mm1)
            else
              let ev = CloseChan (done_chan (priorityFifo mm1 ! 0));
                  rest = drainPriority (mm1\<lparr>priorityFifo := drop 1 (priorityFifo mm1)\<rparr>)
              in (ev # fst rest, snd rest))
      else ([], True, mm))"
  by pat_completeness auto
termination
  by (relation "measure (\<lambda>mm. length (priorityFifo mm))")
     (auto simp: try_mm_def split: if_splits)

function drainFifo :: "memoryManager \<Rightarrow> event list \<times> bool \<times> memoryManager" where
  "drainFifo mm =
     (if length (fifo mm) > 0 then
        (let tried = try_mm mm (amount (fifo mm ! 0)) memoryPriorityLow;
             mm1 = snd tried
         in if \<not> fst tried then ([], False, mm1)
            else
              let ev = CloseChan (done_chan (fifo mm1 ! 0));
                  rest = drainFifo (mm1\<lparr>fifo := drop 1 (fifo mm1)\<rparr>)
              in (ev # fst rest, snd rest))
      else ([], True, mm))"
  by pat_completeness auto
termination
  by (relation "measure (\<lambda>mm. length (fifo mm))")
     (auto simp: try_mm_def split: if_splits)

text \<open>Both loops in the order of the source; the second runs only if the first ended.\<close>

definition drain :: "memoryManager \<Rightarrow> event list \<times> memoryManager" where
  "drain mm =
     (let p = drainPriority mm in
      if \<not> fst (snd p) then (fst p, snd (snd p))
      else let n = drainFifo (snd (snd p)) in (fst p @ fst n, snd (snd n)))"

text \<open>
  The counter of memory returned since the last manual collection. The threshold
  \<open>defaultMemory\<close> is a constant declared elsewhere in the package, so it is an
  argument here and of \<open>Return\<close>.
\<close>

definition countGC :: "uint64 \<Rightarrow> memoryManager \<Rightarrow> uint64 \<Rightarrow> event list \<times> memoryManager" where
  "countGC defaultMemory mm amt =
     (let mm1 = mm\<lparr>memSinceGC := memSinceGC mm + amt\<rparr>
      in if defaultMemory < memSinceGC mm1 then
           ([RuntimeGC, FreeOSMemory], mm1\<lparr>memSinceGC := 0\<rparr>)
         else ([], mm1))"

text \<open>
  The part of \<open>Return\<close> after the underflow has been paid: \<open>amt\<close> is what is left of
  the returned amount.
\<close>

definition addAvailable :: "memoryManager \<Rightarrow> uint64 \<Rightarrow> event list \<times> memoryManager" where
  "addAvailable mm amt =
     (let mm1 = mm\<lparr>available := available mm + amt\<rparr>
      in if base mm1 < available mm1 then
           (build_Critical ''renter memory manager being used incorrectly, too much memory returned'',
            mm1\<lparr>available := base mm1\<rparr>)
         else ([], mm1))"

definition Return :: "uint64 \<Rightarrow> memoryManager \<Rightarrow> uint64 \<Rightarrow> event list \<times> memoryManager" where
  "Return defaultMemory mm amt =
     (let gc = countGC defaultMemory mm amt;
          mm1 = snd gc
      in if 0 < underflow mm1 \<and> amt \<le> underflow mm1 then
           (fst gc, mm1\<lparr>underflow := underflow mm1 - amt\<rparr>)
         else
           let paid = (if 0 < underflow mm1 \<and> underflow mm1 < amt then
                         (amt - underflow mm1, mm1\<lparr>underflow := 0\<rparr>)
                       else (amt, mm1));
               added = addAvailable (snd paid) (fst paid);
               drained = drain (snd added)
           in (fst gc @ fst added @ fst drained, snd drained))"

subsection \<open>newMemoryManager\<close>

definition newMemoryManager :: "uint64 \<Rightarrow> uint64 \<Rightarrow> memoryManager" where
  "newMemoryManager baseMemory priorityMemory =
     \<lparr>available = baseMemory, base = baseMemory, memSinceGC = 0,
      priorityReserve = priorityMemory, underflow = 0,
      fifo = [], priorityFifo = [], blocking = 0\<rparr>"

text \<open>The channels an event list closes, in order.\<close>

fun closed :: "event list \<Rightarrow> chan list" where
  "closed [] = []"
| "closed (CloseChan c # es) = c # closed es"
| "closed (e # es) = closed es"

section \<open>Requests that fit, and the accounting invariant\<close>

text \<open>
  A request fits when the sum \<open>amount + mm.priorityReserve\<close> that \<open>try\<close> computes
  stays below \<open>2 ^ 64\<close>, so that the \<open>uint64\<close> sum is the sum of the numbers.
\<close>

definition fits :: "memoryManager \<Rightarrow> uint64 \<Rightarrow> bool" where
  "fits mm amt \<longleftrightarrow> unat amt + unat (priorityReserve mm) < 2 ^ 64"

text \<open>
  The accounting invariant of the data model: no more than \<open>base\<close> is available, and
  nothing is available while an underflow is owed.
\<close>

definition accounted :: "memoryManager \<Rightarrow> bool" where
  "accounted mm \<longleftrightarrow> available mm \<le> base mm \<and> (underflow mm = 0 \<or> available mm = 0)"

definition queuedFit :: "memoryManager \<Rightarrow> bool" where
  "queuedFit mm \<longleftrightarrow> (\<forall>r\<in>set (priorityFifo mm) \<union> set (fifo mm). fits mm (amount r))"

text \<open>
  No normal waiter is kept waiting for nothing: a priority waiter is queued before it,
  or the normal queue is empty, or \<open>try\<close> rejects its head as things stand.
\<close>

definition headBlocked :: "memoryManager \<Rightarrow> bool" where
  "headBlocked mm \<longleftrightarrow>
     priorityFifo mm \<noteq> [] \<or> fifo mm = []
     \<or> \<not> fst (try_mm mm (amount (hd (fifo mm))) memoryPriorityLow)"

text \<open>
  The managers that \<open>newMemoryManager\<close>, \<open>Request\<close> and \<open>Return\<close> produce when every
  request fits. Returned amounts are not restricted.
\<close>

inductive fit_reachable :: "uint64 \<Rightarrow> memoryManager \<Rightarrow> bool" for dm :: uint64 where
  reach_new: "fit_reachable dm (newMemoryManager b r)"
| reach_Request: "fit_reachable dm mm \<Longrightarrow> fits mm amt \<Longrightarrow> fit_reachable dm (snd (Request mm amt p ch))"
| reach_Return: "fit_reachable dm mm \<Longrightarrow> fit_reachable dm (snd (Return dm mm amt))"

section \<open>Facts about try\<close>

lemma try_mm_fifo [simp]: "fifo (snd (try_mm mm amt p)) = fifo mm"
  by (simp add: try_mm_def)

lemma try_mm_priorityFifo [simp]: "priorityFifo (snd (try_mm mm amt p)) = priorityFifo mm"
  by (simp add: try_mm_def)

lemma try_mm_fail [simp]: "\<not> fst (try_mm mm amt p) \<Longrightarrow> snd (try_mm mm amt p) = mm"
  by (simp add: try_mm_def split: if_splits)

lemma try_mm_frame [simp]:
  "base (snd (try_mm mm amt p)) = base mm"
  "priorityReserve (snd (try_mm mm amt p)) = priorityReserve mm"
  "memSinceGC (snd (try_mm mm amt p)) = memSinceGC mm"
  "blocking (snd (try_mm mm amt p)) = blocking mm"
  by (simp_all add: try_mm_def)

lemma normalGrant_memSinceGC [simp]:
  "normalGrant (mm\<lparr>memSinceGC := x\<rparr>) amt p = normalGrant mm amt p"
  by (simp add: normalGrant_def)

lemma oversizedGrant_memSinceGC [simp]:
  "oversizedGrant (mm\<lparr>memSinceGC := x\<rparr>) amt = oversizedGrant mm amt"
  by (simp add: oversizedGrant_def)

lemma try_mm_memSinceGC [simp]:
  "fst (try_mm (mm\<lparr>memSinceGC := x\<rparr>) amt p) = fst (try_mm mm amt p)"
  by (simp add: try_mm_def)

text \<open>When the request fits, the first test of \<open>try\<close> compares the numbers.\<close>

lemma normalGrant_fits:
  assumes "fits mm amt"
  shows "normalGrant mm amt p \<longleftrightarrow>
           (p \<and> unat amt \<le> unat (available mm))
           \<or> (\<not> p \<and> unat amt + unat (priorityReserve mm) \<le> unat (available mm))"
proof -
  have "unat amt + unat (priorityReserve mm) < 2 ^ LENGTH(64)"
    using assms by (simp add: fits_def)
  then have "unat (amt + priorityReserve mm) = unat amt + unat (priorityReserve mm)"
    by (simp only: unat_add_lem)
  then show ?thesis
    by (auto simp: normalGrant_def word_le_nat_alt)
qed

text \<open>
  For a request that fits, \<open>try\<close> is the admission predicate of the design: the normal
  grant for a priority request that does not exceed \<open>available\<close> or a normal request
  that leaves the reserve untouched, else the oversized grant on an idle pool, else
  nothing.
\<close>

lemma try_mm_fits:
  assumes "fits mm amt"
  shows "try_mm mm amt p =
     (if (p \<and> unat amt \<le> unat (available mm))
         \<or> (\<not> p \<and> unat amt + unat (priorityReserve mm) \<le> unat (available mm)) then
        (True, mm\<lparr>available := available mm - amt\<rparr>)
      else if available mm = base mm \<and> unat (available mm) \<le> unat amt then
        (True, mm\<lparr>available := 0, underflow := amt - base mm\<rparr>)
      else (False, mm))"
  using normalGrant_fits [OF assms, of p]
  by (auto simp: try_mm_def oversizedGrant_def word_le_nat_alt)

lemma normalGrant_fits_le: "fits mm amt \<Longrightarrow> normalGrant mm amt p \<Longrightarrow> amt \<le> available mm"
  by (auto simp: normalGrant_fits word_le_nat_alt)

lemma fits_frame [simp]:
  "fits (mm\<lparr>priorityFifo := q\<rparr>) = fits mm"
  "fits (mm\<lparr>fifo := q\<rparr>) = fits mm"
  "fits (snd (try_mm mm amt p)) = fits mm"
  by (simp_all add: fits_def fun_eq_iff)

lemma fits_cong: "priorityReserve a = priorityReserve b \<Longrightarrow> fits a = fits b"
  by (simp add: fits_def fun_eq_iff)

lemma accounted_frame [simp]:
  "accounted (mm\<lparr>priorityFifo := q\<rparr>) = accounted mm"
  "accounted (mm\<lparr>fifo := q\<rparr>) = accounted mm"
  "accounted (mm\<lparr>blocking := b\<rparr>) = accounted mm"
  "accounted (mm\<lparr>memSinceGC := x\<rparr>) = accounted mm"
  by (simp_all add: accounted_def)

lemma try_mm_accounted:
  assumes "accounted mm" and "fits mm amt"
  shows "accounted (snd (try_mm mm amt p))"
proof (cases "normalGrant mm amt p")
  case True
  then have le: "amt \<le> available mm" using assms(2) by (rule normalGrant_fits_le [rotated])
  then have "available mm - amt \<le> available mm" by unat_arith
  moreover have "available mm = 0 \<Longrightarrow> available mm - amt = 0" using le by unat_arith
  ultimately show ?thesis
    using True assms(1) by (auto simp: try_mm_def accounted_def)
next
  case False
  then show ?thesis
    using assms(1) by (auto simp: try_mm_def accounted_def)
qed

section \<open>Facts about Request\<close>

lemma Request_Granted_iff:
  "fst (Request mm amt p ch) = Granted \<longleftrightarrow>
     priorityFifo mm = [] \<and> (p \<or> fifo mm = []) \<and> fst (try_mm mm amt p)"
  by (auto simp: Request_def memoryPriorityHigh_def Let_def)

lemma Request_Granted_snd:
  "fst (Request mm amt p ch) = Granted \<Longrightarrow> snd (Request mm amt p ch) = snd (try_mm mm amt p)"
  by (auto simp: Request_def memoryPriorityHigh_def Let_def split: if_splits)

lemma Request_Blocked:
  assumes "fst (Request mm amt p ch) \<noteq> Granted"
  shows "Request mm amt p ch =
     (Blocked \<lparr>amount = amt, done_chan = ch\<rparr>,
      if p then
        mm\<lparr>priorityFifo := priorityFifo mm @ [\<lparr>amount = amt, done_chan = ch\<rparr>],
           blocking := (if blocking mm < 1 then blocking mm + 1 else blocking mm)\<rparr>
      else
        mm\<lparr>fifo := fifo mm @ [\<lparr>amount = amt, done_chan = ch\<rparr>],
           blocking := (if blocking mm < 1 then blocking mm + 1 else blocking mm)\<rparr>)"
proof (cases "priorityFifo mm = [] \<and> (p \<or> fifo mm = [])")
  case False
  then show ?thesis
    by (auto simp: Request_def memoryPriorityHigh_def Let_def)
next
  case True
  with assms have "\<not> fst (try_mm mm amt p)" by (simp add: Request_Granted_iff)
  moreover from this have "snd (try_mm mm amt p) = mm" by (rule try_mm_fail)
  ultimately show ?thesis
    using True by (auto simp: Request_def memoryPriorityHigh_def Let_def)
qed

lemma Request_accounted:
  assumes "accounted mm" and "queuedFit mm" and "fits mm amt"
  shows "accounted (snd (Request mm amt p ch)) \<and> queuedFit (snd (Request mm amt p ch))"
proof (cases "fst (Request mm amt p ch) = Granted")
  case True
  have "queuedFit (snd (try_mm mm amt p))"
    using assms(2) by (simp add: queuedFit_def)
  then show ?thesis
    using try_mm_accounted [OF assms(1,3), of p] by (simp add: Request_Granted_snd [OF True])
next
  case False
  then show ?thesis
    using assms by (auto simp: Request_Blocked queuedFit_def fits_def accounted_def)
qed

section \<open>Facts about the collection counter\<close>

lemma countGC_frame:
  "(snd (countGC dm mm amt))\<lparr>memSinceGC := x\<rparr> = mm\<lparr>memSinceGC := x\<rparr>"
  by (simp add: countGC_def Let_def)

lemma countGC_fields [simp]:
  "available (snd (countGC dm mm amt)) = available mm"
  "base (snd (countGC dm mm amt)) = base mm"
  "underflow (snd (countGC dm mm amt)) = underflow mm"
  "priorityReserve (snd (countGC dm mm amt)) = priorityReserve mm"
  "fifo (snd (countGC dm mm amt)) = fifo mm"
  "priorityFifo (snd (countGC dm mm amt)) = priorityFifo mm"
  "blocking (snd (countGC dm mm amt)) = blocking mm"
  by (simp_all add: countGC_def Let_def)

lemma closed_countGC [simp]: "closed (fst (countGC dm mm amt)) = []"
  by (simp add: countGC_def Let_def)

lemma countGC_result:
  "countGC dm mm amt =
     (if dm < memSinceGC mm + amt then
        ([RuntimeGC, FreeOSMemory], mm\<lparr>memSinceGC := 0\<rparr>)
      else ([], mm\<lparr>memSinceGC := memSinceGC mm + amt\<rparr>))"
  by (simp add: countGC_def Let_def)

section \<open>Facts about the two loops\<close>

declare drainPriority.simps [simp del] drainFifo.simps [simp del]

lemma drainPriority_Nil: "priorityFifo mm = [] \<Longrightarrow> drainPriority mm = ([], True, mm)"
  by (subst drainPriority.simps) simp

lemma drainPriority_stuck:
  "priorityFifo mm \<noteq> [] \<Longrightarrow> \<not> fst (try_mm mm (amount (hd (priorityFifo mm))) memoryPriorityHigh)
   \<Longrightarrow> drainPriority mm = ([], False, mm)"
  by (subst drainPriority.simps) (simp add: Let_def hd_conv_nth)

lemma drainPriority_step:
  "priorityFifo mm \<noteq> [] \<Longrightarrow> fst (try_mm mm (amount (hd (priorityFifo mm))) memoryPriorityHigh)
   \<Longrightarrow> drainPriority mm =
       (CloseChan (done_chan (hd (priorityFifo mm))) #
          fst (drainPriority ((snd (try_mm mm (amount (hd (priorityFifo mm))) memoryPriorityHigh))
                 \<lparr>priorityFifo := tl (priorityFifo mm)\<rparr>)),
        snd (drainPriority ((snd (try_mm mm (amount (hd (priorityFifo mm))) memoryPriorityHigh))
                 \<lparr>priorityFifo := tl (priorityFifo mm)\<rparr>)))"
  by (subst drainPriority.simps) (simp add: Let_def hd_conv_nth drop_Suc)

lemma drainFifo_Nil: "fifo mm = [] \<Longrightarrow> drainFifo mm = ([], True, mm)"
  by (subst drainFifo.simps) simp

lemma drainFifo_stuck:
  "fifo mm \<noteq> [] \<Longrightarrow> \<not> fst (try_mm mm (amount (hd (fifo mm))) memoryPriorityLow)
   \<Longrightarrow> drainFifo mm = ([], False, mm)"
  by (subst drainFifo.simps) (simp add: Let_def hd_conv_nth)

lemma drainFifo_step:
  "fifo mm \<noteq> [] \<Longrightarrow> fst (try_mm mm (amount (hd (fifo mm))) memoryPriorityLow)
   \<Longrightarrow> drainFifo mm =
       (CloseChan (done_chan (hd (fifo mm))) #
          fst (drainFifo ((snd (try_mm mm (amount (hd (fifo mm))) memoryPriorityLow))
                 \<lparr>fifo := tl (fifo mm)\<rparr>)),
        snd (drainFifo ((snd (try_mm mm (amount (hd (fifo mm))) memoryPriorityLow))
                 \<lparr>fifo := tl (fifo mm)\<rparr>)))"
  by (subst drainFifo.simps) (simp add: Let_def hd_conv_nth drop_Suc)

text \<open>
  Induction over the runs of a loop: the queue is empty, or \<open>try\<close> rejects its head,
  or the head is released and the loop goes on with the rest.
\<close>

lemma drainPriority_runs [case_names empty stuck step]:
  assumes "\<And>mm. priorityFifo mm = [] \<Longrightarrow> P mm"
    and "\<And>mm. priorityFifo mm \<noteq> [] \<Longrightarrow>
           \<not> fst (try_mm mm (amount (hd (priorityFifo mm))) memoryPriorityHigh) \<Longrightarrow> P mm"
    and "\<And>mm. priorityFifo mm \<noteq> [] \<Longrightarrow>
           fst (try_mm mm (amount (hd (priorityFifo mm))) memoryPriorityHigh) \<Longrightarrow>
           P ((snd (try_mm mm (amount (hd (priorityFifo mm))) memoryPriorityHigh))
                \<lparr>priorityFifo := tl (priorityFifo mm)\<rparr>) \<Longrightarrow> P mm"
  shows "P mm"
proof (induction mm rule: drainPriority.induct)
  case (1 mm)
  show ?case
  proof (cases "priorityFifo mm = []")
    case True
    then show ?thesis by (rule assms(1))
  next
    case ne: False
    show ?thesis
    proof (cases "fst (try_mm mm (amount (hd (priorityFifo mm))) memoryPriorityHigh)")
      case False
      with ne show ?thesis by (rule assms(2))
    next
      case ok: True
      have "P ((snd (try_mm mm (amount (priorityFifo mm ! 0)) memoryPriorityHigh))
                 \<lparr>priorityFifo := drop 1 (priorityFifo
                    (snd (try_mm mm (amount (priorityFifo mm ! 0)) memoryPriorityHigh)))\<rparr>)"
        using "1.IH" [OF _ refl refl _ refl] ne ok by (simp add: hd_conv_nth)
      then have "P ((snd (try_mm mm (amount (hd (priorityFifo mm))) memoryPriorityHigh))
                      \<lparr>priorityFifo := tl (priorityFifo mm)\<rparr>)"
        using ne by (simp add: hd_conv_nth drop_Suc)
      with ne ok show ?thesis by (rule assms(3))
    qed
  qed
qed

lemma drainFifo_runs [case_names empty stuck step]:
  assumes "\<And>mm. fifo mm = [] \<Longrightarrow> P mm"
    and "\<And>mm. fifo mm \<noteq> [] \<Longrightarrow>
           \<not> fst (try_mm mm (amount (hd (fifo mm))) memoryPriorityLow) \<Longrightarrow> P mm"
    and "\<And>mm. fifo mm \<noteq> [] \<Longrightarrow>
           fst (try_mm mm (amount (hd (fifo mm))) memoryPriorityLow) \<Longrightarrow>
           P ((snd (try_mm mm (amount (hd (fifo mm))) memoryPriorityLow))
                \<lparr>fifo := tl (fifo mm)\<rparr>) \<Longrightarrow> P mm"
  shows "P mm"
proof (induction mm rule: drainFifo.induct)
  case (1 mm)
  show ?case
  proof (cases "fifo mm = []")
    case True
    then show ?thesis by (rule assms(1))
  next
    case ne: False
    show ?thesis
    proof (cases "fst (try_mm mm (amount (hd (fifo mm))) memoryPriorityLow)")
      case False
      with ne show ?thesis by (rule assms(2))
    next
      case ok: True
      have "P ((snd (try_mm mm (amount (fifo mm ! 0)) memoryPriorityLow))
                 \<lparr>fifo := drop 1 (fifo
                    (snd (try_mm mm (amount (fifo mm ! 0)) memoryPriorityLow)))\<rparr>)"
        using "1.IH" [OF _ refl refl _ refl] ne ok by (simp add: hd_conv_nth)
      then have "P ((snd (try_mm mm (amount (hd (fifo mm))) memoryPriorityLow))
                      \<lparr>fifo := tl (fifo mm)\<rparr>)"
        using ne by (simp add: hd_conv_nth drop_Suc)
      with ne ok show ?thesis by (rule assms(3))
    qed
  qed
qed


text \<open>The shape of a loop: it releases a prefix of its queue, in order.\<close>

lemma drainPriority_shape:
  "\<exists>k\<le>length (priorityFifo mm).
     priorityFifo (snd (snd (drainPriority mm))) = drop k (priorityFifo mm)
     \<and> fst (drainPriority mm) = map (\<lambda>r. CloseChan (done_chan r)) (take k (priorityFifo mm))
     \<and> fifo (snd (snd (drainPriority mm))) = fifo mm
     \<and> (fst (snd (drainPriority mm)) \<longleftrightarrow> priorityFifo (snd (snd (drainPriority mm))) = [])"
proof (induction mm rule: drainPriority_runs)
  case (empty mm)
  then show ?case by (simp add: drainPriority_Nil)
next
  case (stuck mm)
  then show ?case by (intro exI [of _ 0]) (simp add: drainPriority_stuck)
next
  case (step mm)
  from step(3) obtain k where "k \<le> length (tl (priorityFifo mm))"
    "priorityFifo (snd (snd (drainPriority mm))) = drop k (tl (priorityFifo mm))"
    "fst (drainPriority mm) = CloseChan (done_chan (hd (priorityFifo mm))) #
       map (\<lambda>r. CloseChan (done_chan r)) (take k (tl (priorityFifo mm)))"
    "fifo (snd (snd (drainPriority mm))) = fifo mm"
    "fst (snd (drainPriority mm)) \<longleftrightarrow> priorityFifo (snd (snd (drainPriority mm))) = []"
    by (auto simp: drainPriority_step [OF step(1,2)])
  moreover obtain r rs where "priorityFifo mm = r # rs"
    using step(1) by (cases "priorityFifo mm") auto
  ultimately show ?case
    by (intro exI [of _ "Suc k"]) simp
qed

lemma drainFifo_shape:
  "\<exists>k\<le>length (fifo mm).
     fifo (snd (snd (drainFifo mm))) = drop k (fifo mm)
     \<and> fst (drainFifo mm) = map (\<lambda>r. CloseChan (done_chan r)) (take k (fifo mm))
     \<and> priorityFifo (snd (snd (drainFifo mm))) = priorityFifo mm
     \<and> (fst (snd (drainFifo mm)) \<longleftrightarrow> fifo (snd (snd (drainFifo mm))) = [])"
proof (induction mm rule: drainFifo_runs)
  case (empty mm)
  then show ?case by (simp add: drainFifo_Nil)
next
  case (stuck mm)
  then show ?case by (intro exI [of _ 0]) (simp add: drainFifo_stuck)
next
  case (step mm)
  from step(3) obtain k where "k \<le> length (tl (fifo mm))"
    "fifo (snd (snd (drainFifo mm))) = drop k (tl (fifo mm))"
    "fst (drainFifo mm) = CloseChan (done_chan (hd (fifo mm))) #
       map (\<lambda>r. CloseChan (done_chan r)) (take k (tl (fifo mm)))"
    "priorityFifo (snd (snd (drainFifo mm))) = priorityFifo mm"
    "fst (snd (drainFifo mm)) \<longleftrightarrow> fifo (snd (snd (drainFifo mm))) = []"
    by (auto simp: drainFifo_step [OF step(1,2)])
  moreover obtain r rs where "fifo mm = r # rs"
    using step(1) by (cases "fifo mm") auto
  ultimately show ?case
    by (intro exI [of _ "Suc k"]) simp
qed

lemma closed_append [simp]: "closed (xs @ ys) = closed xs @ closed ys"
  by (induction xs rule: closed.induct) simp_all

lemma closed_map_CloseChan [simp]:
  "closed (map (\<lambda>r. CloseChan (done_chan r)) rs) = map done_chan rs"
  by (induction rs) simp_all

lemma closed_build_Critical [simp]: "closed (build_Critical msg) = []"
  by (simp add: build_Critical_def)

lemma drain_shape:
  "\<exists>k j. k \<le> length (priorityFifo mm) \<and> j \<le> length (fifo mm)
     \<and> priorityFifo (snd (drain mm)) = drop k (priorityFifo mm)
     \<and> fifo (snd (drain mm)) = drop j (fifo mm)
     \<and> fst (drain mm) = map (\<lambda>r. CloseChan (done_chan r)) (take k (priorityFifo mm))
                        @ map (\<lambda>r. CloseChan (done_chan r)) (take j (fifo mm))
     \<and> (priorityFifo (snd (drain mm)) \<noteq> [] \<longrightarrow> j = 0)"
proof -
  obtain k where k: "k \<le> length (priorityFifo mm)"
    "priorityFifo (snd (snd (drainPriority mm))) = drop k (priorityFifo mm)"
    "fst (drainPriority mm) = map (\<lambda>r. CloseChan (done_chan r)) (take k (priorityFifo mm))"
    "fifo (snd (snd (drainPriority mm))) = fifo mm"
    "fst (snd (drainPriority mm)) \<longleftrightarrow> priorityFifo (snd (snd (drainPriority mm))) = []"
    using drainPriority_shape [of mm] by blast
  show ?thesis
  proof (cases "fst (snd (drainPriority mm))")
    case False
    then have "drain mm = (fst (drainPriority mm), snd (snd (drainPriority mm)))"
      by (simp add: drain_def Let_def)
    with k show ?thesis
      by (intro exI [of _ k] exI [of _ 0]) simp
  next
    case True
    let ?m = "snd (snd (drainPriority mm))"
    obtain j where j: "j \<le> length (fifo ?m)"
      "fifo (snd (snd (drainFifo ?m))) = drop j (fifo ?m)"
      "fst (drainFifo ?m) = map (\<lambda>r. CloseChan (done_chan r)) (take j (fifo ?m))"
      "priorityFifo (snd (snd (drainFifo ?m))) = priorityFifo ?m"
      using drainFifo_shape [of ?m] by blast
    from True have "drain mm = (fst (drainPriority mm) @ fst (drainFifo ?m), snd (snd (drainFifo ?m)))"
      by (simp add: drain_def Let_def)
    with k j True show ?thesis
      by (intro exI [of _ k] exI [of _ j]) simp
  qed
qed

lemma addAvailable_queues [simp]:
  "fifo (snd (addAvailable mm amt)) = fifo mm"
  "priorityFifo (snd (addAvailable mm amt)) = priorityFifo mm"
  by (simp_all add: addAvailable_def Let_def)

lemma closed_addAvailable [simp]: "closed (fst (addAvailable mm amt)) = []"
  by (simp add: addAvailable_def Let_def)

lemma drainPriority_frame:
  "memSinceGC (snd (snd (drainPriority mm))) = memSinceGC mm
   \<and> base (snd (snd (drainPriority mm))) = base mm
   \<and> priorityReserve (snd (snd (drainPriority mm))) = priorityReserve mm
   \<and> blocking (snd (snd (drainPriority mm))) = blocking mm"
proof (induction mm rule: drainPriority_runs)
  case (empty mm)
  then show ?case by (simp add: drainPriority_Nil)
next
  case (stuck mm)
  then show ?case by (simp add: drainPriority_stuck)
next
  case (step mm)
  from step(3) show ?case by (simp add: drainPriority_step [OF step(1,2)])
qed

lemma drainFifo_frame:
  "memSinceGC (snd (snd (drainFifo mm))) = memSinceGC mm
   \<and> base (snd (snd (drainFifo mm))) = base mm
   \<and> priorityReserve (snd (snd (drainFifo mm))) = priorityReserve mm
   \<and> blocking (snd (snd (drainFifo mm))) = blocking mm"
proof (induction mm rule: drainFifo_runs)
  case (empty mm)
  then show ?case by (simp add: drainFifo_Nil)
next
  case (stuck mm)
  then show ?case by (simp add: drainFifo_stuck)
next
  case (step mm)
  from step(3) show ?case by (simp add: drainFifo_step [OF step(1,2)])
qed

lemma drain_frame [simp]:
  "memSinceGC (snd (drain mm)) = memSinceGC mm"
  "base (snd (drain mm)) = base mm"
  "priorityReserve (snd (drain mm)) = priorityReserve mm"
  "blocking (snd (drain mm)) = blocking mm"
  using drainPriority_frame [of mm] drainFifo_frame [of "snd (snd (drainPriority mm))"]
  by (simp_all add: drain_def Let_def)

lemma drain_events: "RuntimeGC \<notin> set (fst (drain mm)) \<and> FreeOSMemory \<notin> set (fst (drain mm))"
  using drain_shape [of mm] by auto

lemma addAvailable_frame [simp]:
  "memSinceGC (snd (addAvailable mm amt)) = memSinceGC mm"
  "base (snd (addAvailable mm amt)) = base mm"
  "priorityReserve (snd (addAvailable mm amt)) = priorityReserve mm"
  "underflow (snd (addAvailable mm amt)) = underflow mm"
  "blocking (snd (addAvailable mm amt)) = blocking mm"
  by (simp_all add: addAvailable_def Let_def)

lemma addAvailable_events:
  "RuntimeGC \<notin> set (fst (addAvailable mm amt)) \<and> FreeOSMemory \<notin> set (fst (addAvailable mm amt))"
  by (simp add: addAvailable_def build_Critical_def Let_def)

lemma drainPriority_accounted:
  "accounted mm \<Longrightarrow> \<forall>r\<in>set (priorityFifo mm). fits mm (amount r)
   \<Longrightarrow> accounted (snd (snd (drainPriority mm)))"
proof (induction mm rule: drainPriority_runs)
  case (empty mm)
  then show ?case by (simp add: drainPriority_Nil)
next
  case (stuck mm)
  then show ?case by (simp add: drainPriority_stuck)
next
  case (step mm)
  have "fits mm (amount (hd (priorityFifo mm)))"
    using step(1,5) by simp
  with step(4) have "accounted (snd (try_mm mm (amount (hd (priorityFifo mm))) memoryPriorityHigh))"
    by (rule try_mm_accounted)
  moreover have "\<forall>r\<in>set (tl (priorityFifo mm)). fits mm (amount r)"
    using step(1,5) by (auto dest: list.set_sel(2))
  ultimately show ?case
    using step(3) by (simp add: drainPriority_step [OF step(1,2)])
qed

lemma drainFifo_accounted:
  "accounted mm \<Longrightarrow> \<forall>r\<in>set (fifo mm). fits mm (amount r)
   \<Longrightarrow> accounted (snd (snd (drainFifo mm)))"
proof (induction mm rule: drainFifo_runs)
  case (empty mm)
  then show ?case by (simp add: drainFifo_Nil)
next
  case (stuck mm)
  then show ?case by (simp add: drainFifo_stuck)
next
  case (step mm)
  have "fits mm (amount (hd (fifo mm)))"
    using step(1,5) by simp
  with step(4) have "accounted (snd (try_mm mm (amount (hd (fifo mm))) memoryPriorityLow))"
    by (rule try_mm_accounted)
  moreover have "\<forall>r\<in>set (tl (fifo mm)). fits mm (amount r)"
    using step(1,5) by (auto dest: list.set_sel(2))
  ultimately show ?case
    using step(3) by (simp add: drainFifo_step [OF step(1,2)])
qed

lemma drain_accounted:
  assumes "accounted mm" and "queuedFit mm"
  shows "accounted (snd (drain mm))"
proof -
  let ?p = "snd (snd (drainPriority mm))"
  have ap: "accounted ?p"
    using assms by (intro drainPriority_accounted) (simp_all add: queuedFit_def)
  have "fits ?p = fits mm"
    using drainPriority_frame [of mm] by (intro fits_cong) simp
  moreover have "fifo ?p = fifo mm"
    using drainPriority_shape [of mm] by blast
  ultimately have "\<forall>r\<in>set (fifo ?p). fits ?p (amount r)"
    using assms(2) by (simp add: queuedFit_def)
  with ap have "accounted (snd (snd (drainFifo ?p)))"
    by (rule drainFifo_accounted)
  with ap show ?thesis
    by (simp add: drain_def Let_def)
qed

lemma drain_queuedFit:
  assumes "queuedFit mm"
  shows "queuedFit (snd (drain mm))"
proof -
  from drain_shape [of mm] obtain k j where
    "priorityFifo (snd (drain mm)) = drop k (priorityFifo mm)"
    "fifo (snd (drain mm)) = drop j (fifo mm)"
    by blast
  moreover have "fits (snd (drain mm)) = fits mm"
    by (intro fits_cong) simp
  ultimately show ?thesis
    using assms by (auto simp: queuedFit_def dest: in_set_dropD)
qed

lemma addAvailable_accounted:
  "underflow mm = 0 \<Longrightarrow> accounted (snd (addAvailable mm amt))"
  by (auto simp: addAvailable_def accounted_def Let_def)

lemma drain_idle:
  assumes "priorityFifo mm = []"
    and "fifo mm = [] \<or> \<not> fst (try_mm mm (amount (hd (fifo mm))) memoryPriorityLow)"
  shows "drain mm = ([], mm)"
proof -
  have p: "drainPriority mm = ([], True, mm)"
    using assms(1) by (rule drainPriority_Nil)
  have "drainFifo mm = ([], True, mm) \<or> drainFifo mm = ([], False, mm)"
    using assms(2) drainFifo_Nil [of mm] drainFifo_stuck [of mm] by blast
  then show ?thesis
    using p by (auto simp: drain_def Let_def)
qed

section \<open>Facts about Return\<close>

lemma Return_paydown:
  "0 < underflow mm \<Longrightarrow> amt \<le> underflow mm \<Longrightarrow>
   Return dm mm amt =
     (fst (countGC dm mm amt), (snd (countGC dm mm amt))\<lparr>underflow := underflow mm - amt\<rparr>)"
  by (simp add: Return_def Let_def)

lemma Return_full:
  assumes "\<not> (0 < underflow mm \<and> amt \<le> underflow mm)"
  shows "Return dm mm amt =
     (fst (countGC dm mm amt)
        @ fst (addAvailable ((snd (countGC dm mm amt))\<lparr>underflow := 0\<rparr>) (amt - underflow mm))
        @ fst (drain (snd (addAvailable ((snd (countGC dm mm amt))\<lparr>underflow := 0\<rparr>) (amt - underflow mm)))),
      snd (drain (snd (addAvailable ((snd (countGC dm mm amt))\<lparr>underflow := 0\<rparr>) (amt - underflow mm)))))"
proof (cases "0 < underflow mm")
  case True
  with assms have "underflow mm < amt" and "\<not> amt \<le> underflow mm" by simp_all
  with True show ?thesis by (simp add: Return_def Let_def)
next
  case False
  then have z: "underflow mm = 0" by (simp add: word_gt_0)
  then have e: "(snd (countGC dm mm amt))\<lparr>underflow := 0\<rparr> = snd (countGC dm mm amt)"
    by (simp add: countGC_def Let_def)
  show ?thesis unfolding e using z by (simp add: Return_def Let_def)
qed

lemma Return_accounted:
  assumes "accounted mm" and "queuedFit mm"
  shows "accounted (snd (Return dm mm amt)) \<and> queuedFit (snd (Return dm mm amt))"
proof (cases "0 < underflow mm \<and> amt \<le> underflow mm")
  case True
  then have a0: "available mm = 0" using assms(1) by (auto simp: accounted_def)
  have "fits ((snd (countGC dm mm amt))\<lparr>underflow := underflow mm - amt\<rparr>) = fits mm"
    by (intro fits_cong) simp
  then show ?thesis
    using True a0 assms by (simp add: Return_paydown accounted_def queuedFit_def)
next
  case False
  let ?a = "addAvailable ((snd (countGC dm mm amt))\<lparr>underflow := 0\<rparr>) (amt - underflow mm)"
  have a: "accounted (snd ?a)" by (rule addAvailable_accounted) simp
  have "fits (snd ?a) = fits mm" by (intro fits_cong) simp
  then have q: "queuedFit (snd ?a)" using assms(2) by (simp add: queuedFit_def)
  show ?thesis
    using drain_accounted [OF a q] drain_queuedFit [OF q] by (simp add: Return_full [OF False])
qed

lemma fit_reachable_accounted: "fit_reachable dm mm \<Longrightarrow> accounted mm \<and> queuedFit mm"
proof (induction rule: fit_reachable.induct)
  case (reach_new b r)
  show ?case by (simp add: newMemoryManager_def accounted_def queuedFit_def)
next
  case (reach_Request mm amt p ch)
  then show ?case by (simp add: Request_accounted)
next
  case (reach_Return mm amt)
  then show ?case by (simp add: Return_accounted)
qed

section \<open>Consequences for requests that fit\<close>

text \<open>
  An idle pool with a reserve that fits on top of \<open>base\<close>: a normal request for exactly
  \<open>base\<close> fails the first test of \<open>try\<close>, passes the second, and is granted.
\<close>

lemma exact_base_request_fits:
  assumes "available mm = base mm" and "priorityFifo mm = []" and "fifo mm = []"
    and "0 < priorityReserve mm" and "fits mm (base mm)"
  shows "\<not> normalGrant mm (base mm) False \<and> oversizedGrant mm (base mm)
         \<and> Request mm (base mm) False ch = (Granted, mm\<lparr>available := 0, underflow := 0\<rparr>)"
proof -
  have "0 < unat (priorityReserve mm)"
    using assms(4) by (simp add: word_less_nat_alt)
  then have n: "\<not> normalGrant mm (base mm) False"
    using assms(1) by (simp add: normalGrant_fits [OF assms(5)])
  have o: "oversizedGrant mm (base mm)"
    using assms(1) by (simp add: oversizedGrant_def)
  from n o have t: "try_mm mm (base mm) False = (True, mm\<lparr>available := 0, underflow := 0\<rparr>)"
    by (simp add: try_mm_def)
  then have g: "fst (Request mm (base mm) False ch) = Granted"
    using assms(2,3) by (simp add: Request_Granted_iff)
  from Request_Granted_snd [OF g] g t have
    "Request mm (base mm) False ch = (Granted, mm\<lparr>available := 0, underflow := 0\<rparr>)"
    by (simp add: prod_eq_iff)
  with n o show ?thesis by simp
qed

text \<open>
  A reserve above \<open>base\<close>: while the accounting invariant holds, no normal request that
  fits passes the first test of \<open>try\<close>, so \<open>try\<close> grants it only on an idle pool, by
  the second.
\<close>

lemma reserve_above_base_fits:
  assumes "accounted mm" and "base mm < priorityReserve mm" and "fits mm amt"
  shows "\<not> normalGrant mm amt False"
    and "fst (try_mm mm amt False) \<Longrightarrow> oversizedGrant mm amt"
proof -
  have "unat (available mm) \<le> unat (base mm)"
    using assms(1) by (simp add: accounted_def word_le_nat_alt)
  moreover have "unat (base mm) < unat (priorityReserve mm)"
    using assms(2) by (simp add: word_less_nat_alt)
  ultimately show n: "\<not> normalGrant mm amt False"
    by (simp add: normalGrant_fits [OF assms(3)])
  show "fst (try_mm mm amt False) \<Longrightarrow> oversizedGrant mm amt"
    using n by (simp add: try_mm_def split: if_splits)
qed

section \<open>Waiters that stay rejected\<close>

lemma try_mm_fst_cong:
  "available a = available b \<Longrightarrow> base a = base b \<Longrightarrow> priorityReserve a = priorityReserve b
   \<Longrightarrow> fst (try_mm a amt p) = fst (try_mm b amt p)"
proof -
  assume a: "available a = available b" "base a = base b" "priorityReserve a = priorityReserve b"
  then have "normalGrant a amt p = normalGrant b amt p"
    and "oversizedGrant a amt = oversizedGrant b amt"
    by (simp_all add: normalGrant_def oversizedGrant_def)
  then show ?thesis by (simp add: try_mm_def)
qed

lemma drainFifo_head:
  "fifo (snd (snd (drainFifo mm))) = []
   \<or> \<not> fst (try_mm (snd (snd (drainFifo mm)))
             (amount (hd (fifo (snd (snd (drainFifo mm)))))) memoryPriorityLow)"
proof (induction mm rule: drainFifo_runs)
  case (empty mm)
  then show ?case by (simp add: drainFifo_Nil)
next
  case (stuck mm)
  then show ?case by (simp add: drainFifo_stuck)
next
  case (step mm)
  from step(3) show ?case by (simp add: drainFifo_step [OF step(1,2)])
qed

lemma drain_headBlocked: "headBlocked (snd (drain mm))"
proof (cases "fst (snd (drainPriority mm))")
  case False
  then have "priorityFifo (snd (snd (drainPriority mm))) \<noteq> []"
    using drainPriority_shape [of mm] by blast
  with False show ?thesis
    by (simp add: drain_def Let_def headBlocked_def)
next
  case True
  then show ?thesis
    using drainFifo_head [of "snd (snd (drainPriority mm))"]
    by (auto simp: drain_def Let_def headBlocked_def)
qed

lemma Return_headBlocked:
  assumes "headBlocked mm"
  shows "headBlocked (snd (Return dm mm amt))"
proof (cases "0 < underflow mm \<and> amt \<le> underflow mm")
  case True
  have "fst (try_mm ((snd (countGC dm mm amt))\<lparr>underflow := underflow mm - amt\<rparr>) a p)
        = fst (try_mm mm a p)" for a p
    by (rule try_mm_fst_cong) simp_all
  then show ?thesis
    using True assms by (simp add: Return_paydown headBlocked_def)
next
  case False
  then show ?thesis
    by (simp add: Return_full drain_headBlocked)
qed

lemma try_mm_keeps_rejected:
  assumes "accounted mm" and "fits mm amt" and "fits mm h"
    and "fst (try_mm mm amt p)" and "\<not> fst (try_mm mm h False)"
  shows "\<not> fst (try_mm (snd (try_mm mm amt p)) h False)"
proof -
  from assms(5) have nh: "\<not> normalGrant mm h False" and oh: "\<not> oversizedGrant mm h"
    by (auto simp: try_mm_def split: if_splits)
  from nh have nh': "\<not> unat h + unat (priorityReserve mm) \<le> unat (available mm)"
    by (simp add: normalGrant_fits [OF assms(3)])
  have ab: "unat (available mm) \<le> unat (base mm)"
    using assms(1) by (simp add: accounted_def word_le_nat_alt)
  show ?thesis
  proof (cases "normalGrant mm amt p")
    case True
    then have le: "amt \<le> available mm" using assms(2) by (rule normalGrant_fits_le [rotated])
    let ?m = "mm\<lparr>available := available mm - amt\<rparr>"
    have s: "snd (try_mm mm amt p) = ?m" using True by (simp add: try_mm_def)
    have u: "unat (available mm - amt) = unat (available mm) - unat amt"
      using le by (rule unat_sub)
    have f: "fits ?m h" using assms(3) by (simp add: fits_def)
    have n: "\<not> normalGrant ?m h False"
      using nh' u by (simp add: normalGrant_fits [OF f])
    have o: "\<not> oversizedGrant ?m h"
    proof
      assume "oversizedGrant ?m h"
      then have e: "available mm - amt = base mm" and bh: "base mm \<le> h"
        by (auto simp: oversizedGrant_def)
      from e u ab have "unat (available mm) = unat (base mm)" by simp
      then have "available mm = base mm" by (simp add: word_unat_eq_iff)
      with bh oh show False by (simp add: oversizedGrant_def)
    qed
    from n o show ?thesis unfolding s by (simp add: try_mm_def)
  next
    case False
    with assms(4) have o: "oversizedGrant mm amt" by (simp add: try_mm_def split: if_splits)
    let ?m = "mm\<lparr>available := 0, underflow := amt - base mm\<rparr>"
    have s: "snd (try_mm mm amt p) = ?m" using False o by (simp add: try_mm_def)
    have f: "fits ?m h" using assms(3) by (simp add: fits_def)
    have n: "\<not> normalGrant ?m h False"
      using nh' by (auto simp: normalGrant_fits [OF f])
    have o': "\<not> oversizedGrant ?m h"
    proof
      assume "oversizedGrant ?m h"
      then have "base mm = 0" by (auto simp: oversizedGrant_def)
      with o have "oversizedGrant mm h" by (simp add: oversizedGrant_def)
      with oh show False ..
    qed
    from n o' show ?thesis unfolding s by (simp add: try_mm_def)
  qed
qed

lemma Request_headBlocked:
  assumes "accounted mm" and "queuedFit mm" and "fits mm amt" and "headBlocked mm"
  shows "headBlocked (snd (Request mm amt p ch))"
proof (cases "fst (Request mm amt p ch) = Granted")
  case True
  then have pf: "priorityFifo mm = []" and tr: "fst (try_mm mm amt p)"
    by (simp_all add: Request_Granted_iff)
  note st = Request_Granted_snd [OF True]
  show ?thesis
  proof (cases "fifo mm = []")
    case True
    then show ?thesis by (simp add: st headBlocked_def)
  next
    case False
    then have "fits mm (amount (hd (fifo mm)))"
      using assms(2) by (simp add: queuedFit_def)
    moreover have "\<not> fst (try_mm mm (amount (hd (fifo mm))) False)"
      using assms(4) pf False by (simp add: headBlocked_def memoryPriorityLow_def)
    ultimately have "\<not> fst (try_mm (snd (try_mm mm amt p)) (amount (hd (fifo mm))) False)"
      using assms(1,3) tr by (intro try_mm_keeps_rejected)
    then show ?thesis by (simp add: st headBlocked_def memoryPriorityLow_def)
  qed
next
  case blocked: False
  note st = Request_Blocked [OF blocked]
  show ?thesis
  proof (cases p)
    case True
    then have "priorityFifo (snd (Request mm amt p ch)) \<noteq> []"
      unfolding st by simp
    then show ?thesis by (simp add: headBlocked_def)
  next
    case np: False
    let ?m = "mm\<lparr>fifo := fifo mm @ [\<lparr>amount = amt, done_chan = ch\<rparr>],
           blocking := (if blocking mm < 1 then blocking mm + 1 else blocking mm)\<rparr>"
    have s: "snd (Request mm amt p ch) = ?m" unfolding st using np by simp
    have c: "fst (try_mm ?m a q) = fst (try_mm mm a q)" for a q
      by (rule try_mm_fst_cong) simp_all
    show ?thesis
    proof (cases "priorityFifo mm = []")
      case False
      then show ?thesis by (simp add: s headBlocked_def)
    next
      case pf: True
      show ?thesis
      proof (cases "fifo mm = []")
        case False
        with pf assms(4) show ?thesis
          unfolding s headBlocked_def c by simp
      next
        case True
        with pf np blocked have "\<not> fst (try_mm mm amt False)"
          by (simp add: Request_Granted_iff)
        with True show ?thesis
          unfolding s headBlocked_def c by (simp add: memoryPriorityLow_def)
      qed
    qed
  qed
qed

lemma fit_reachable_headBlocked: "fit_reachable dm mm \<Longrightarrow> headBlocked mm"
proof (induction rule: fit_reachable.induct)
  case (reach_new b r)
  show ?case by (simp add: newMemoryManager_def headBlocked_def)
next
  case (reach_Request mm amt p ch)
  then show ?case
    using fit_reachable_accounted [of dm mm] by (simp add: Request_headBlocked)
next
  case (reach_Return mm amt)
  from reach_Return.IH show ?case by (rule Return_headBlocked)
qed

section \<open>A request that is granted and returned\<close>

text \<open>
  Where no underflow is owed, \<open>available \<le> base\<close> and no normal waiter is admissible,
  a request granted at once and returned at once leaves every field but \<open>memSinceGC\<close>
  as it was, and the return releases nobody.
\<close>

lemma Request_Return_roundtrip:
  assumes "underflow mm = 0"
    and "available mm \<le> base mm"
    and "fifo mm = [] \<or> \<not> fst (try_mm mm (amount (hd (fifo mm))) memoryPriorityLow)"
    and "fst (Request mm n p ch) = Granted"
  shows "(snd (Return dm (snd (Request mm n p ch)) n))\<lparr>memSinceGC := memSinceGC mm\<rparr> = mm
         \<and> closed (fst (Return dm (snd (Request mm n p ch)) n)) = []"
proof -
  have pf: "priorityFifo mm = []" and tr: "fst (try_mm mm n p)"
    using assms(4) by (simp_all add: Request_Granted_iff)
  note st = Request_Granted_snd [OF assms(4)]
  define x where "x = memSinceGC (snd (countGC dm mm n))"
  have idle: "drain (mm\<lparr>memSinceGC := x\<rparr>) = ([], mm\<lparr>memSinceGC := x\<rparr>)"
    using pf assms(3) by (intro drain_idle) simp_all
  have restore: "mm\<lparr>memSinceGC := x, memSinceGC := memSinceGC mm\<rparr> = mm" by simp
  show ?thesis
  proof (cases "normalGrant mm n p")
    case True
    then have s: "snd (Request mm n p ch) = mm\<lparr>available := available mm - n\<rparr>"
      by (simp add: st try_mm_def)
    let ?s = "mm\<lparr>available := available mm - n\<rparr>"
    have u: "\<not> (0 < underflow ?s \<and> n \<le> underflow ?s)" using assms(1) by simp
    have c: "snd (countGC dm ?s n) = mm\<lparr>memSinceGC := x, available := available mm - n\<rparr>"
      by (simp add: countGC_def Let_def x_def)
    have nb: "\<not> base mm < available mm" using assms(2) by simp
    have a: "addAvailable ((snd (countGC dm ?s n))\<lparr>underflow := 0\<rparr>) (n - underflow ?s)
             = ([], mm\<lparr>memSinceGC := x\<rparr>)"
      using assms(1) nb unfolding c by (simp add: addAvailable_def Let_def)
    show ?thesis
      unfolding s Return_full [OF u] a using idle restore by simp
  next
    case False
    with tr have o: "oversizedGrant mm n" by (simp add: try_mm_def split: if_splits)
    then have ab: "available mm = base mm" and bn: "base mm \<le> n"
      by (auto simp: oversizedGrant_def)
    from False o have s: "snd (Request mm n p ch) = mm\<lparr>available := 0, underflow := n - base mm\<rparr>"
      by (simp add: st try_mm_def)
    let ?s = "mm\<lparr>available := 0, underflow := n - base mm\<rparr>"
    have c: "snd (countGC dm ?s n) = mm\<lparr>memSinceGC := x, available := 0, underflow := n - base mm\<rparr>"
      by (simp add: countGC_def Let_def x_def)
    show ?thesis
    proof (cases "0 < underflow ?s \<and> n \<le> underflow ?s")
      case True
      then have "n \<le> n - base mm" by simp
      with bn have b0: "base mm = 0" by unat_arith
      have "(snd (countGC dm ?s n))\<lparr>underflow := underflow ?s - n\<rparr> = mm\<lparr>memSinceGC := x\<rparr>"
        unfolding c using b0 ab assms(1) by simp
      then show ?thesis
        unfolding s using True restore by (simp add: Return_paydown)
    next
      case u: False
      have "n - (n - base mm) = base mm" by simp
      then have a: "addAvailable ((snd (countGC dm ?s n))\<lparr>underflow := 0\<rparr>) (n - underflow ?s)
             = ([], mm\<lparr>memSinceGC := x\<rparr>)"
        using assms(1) ab unfolding c by (simp add: addAvailable_def Let_def)
      show ?thesis
        unfolding s Return_full [OF u] a using idle restore by simp
    qed
  qed
qed

text \<open>
  Every state reached by requests that fit is such a state or owes an underflow; with
  \<open>base > 0\<close> the only request granted while an underflow is owed is one for nothing.
  So with \<open>base > 0\<close> the round trip holds on all these states.
\<close>

lemma fit_reachable_roundtrip:
  assumes "fit_reachable dm mm" and "0 < base mm" and "fits mm n"
    and "fst (Request mm n p ch) = Granted"
  shows "(snd (Return dm (snd (Request mm n p ch)) n))\<lparr>memSinceGC := memSinceGC mm\<rparr> = mm
         \<and> closed (fst (Return dm (snd (Request mm n p ch)) n)) = []"
proof (cases "underflow mm = 0")
  case True
  have acc: "accounted mm" using fit_reachable_accounted [OF assms(1)] by simp
  have pf: "priorityFifo mm = []" using assms(4) by (simp add: Request_Granted_iff)
  have "fifo mm = [] \<or> \<not> fst (try_mm mm (amount (hd (fifo mm))) memoryPriorityLow)"
    using fit_reachable_headBlocked [OF assms(1)] pf by (simp add: headBlocked_def)
  with True acc show ?thesis
    using assms(4) by (intro Request_Return_roundtrip) (simp_all add: accounted_def)
next
  case False
  then have u: "0 < underflow mm" by (simp add: word_gt_0)
  have a0: "available mm = 0"
    using fit_reachable_accounted [OF assms(1)] False by (simp add: accounted_def)
  have tr: "fst (try_mm mm n p)" using assms(4) by (simp add: Request_Granted_iff)
  have "\<not> oversizedGrant mm n"
    using a0 assms(2) by (auto simp: oversizedGrant_def)
  with tr have ng: "normalGrant mm n p" by (simp add: try_mm_def split: if_splits)
  then have "unat n = 0"
    using a0 by (auto simp: normalGrant_fits [OF assms(3)])
  then have n0: "n = 0" by (simp add: unat_eq_0)
  have "snd (try_mm mm n p) = mm\<lparr>available := available mm - n\<rparr>"
    using ng by (simp add: try_mm_def)
  also have "\<dots> = mm" by (simp add: n0)
  finally have s: "snd (Request mm n p ch) = mm"
    by (simp only: Request_Granted_snd [OF assms(4)])
  have r: "Return dm mm 0 =
      (fst (countGC dm mm 0), (snd (countGC dm mm 0))\<lparr>underflow := underflow mm - 0\<rparr>)"
    using u by (intro Return_paydown) simp_all
  have e: "(snd (countGC dm mm 0))\<lparr>underflow := underflow mm - 0, memSinceGC := memSinceGC mm\<rparr> = mm"
    by (simp add: countGC_def Let_def)
  have "(snd (Return dm mm 0))\<lparr>memSinceGC := memSinceGC mm\<rparr> = mm
        \<and> closed (fst (Return dm mm 0)) = []"
    unfolding r using e by simp
  with s n0 show ?thesis by simp
qed

section \<open>Returns whose sums do not wrap\<close>

text \<open>
  \<open>Return\<close> compares the stored sum \<open>available + amount\<close> with \<open>base\<close>: when that
  \<open>uint64\<close> sum exceeds \<open>base\<close>, the call reports, clamps, and runs both loops.
\<close>

lemma Return_clamps_and_drains:
  assumes "\<not> (0 < underflow mm \<and> amt \<le> underflow mm)"
    and "base mm < available mm + (amt - underflow mm)"
  shows "Return dm mm amt =
           (fst (countGC dm mm amt)
              @ [Critical ''renter memory manager being used incorrectly, too much memory returned'']
              @ fst (drain ((snd (countGC dm mm amt))\<lparr>underflow := 0, available := base mm\<rparr>)),
            snd (drain ((snd (countGC dm mm amt))\<lparr>underflow := 0, available := base mm\<rparr>)))"
proof -
  have "addAvailable ((snd (countGC dm mm amt))\<lparr>underflow := 0\<rparr>) (amt - underflow mm) =
          ([Critical ''renter memory manager being used incorrectly, too much memory returned''],
           (snd (countGC dm mm amt))\<lparr>underflow := 0, available := base mm\<rparr>)"
    using assms(2) by (simp add: addAvailable_def build_Critical_def Let_def)
  then show ?thesis
    using Return_full [OF assms(1), of dm] by simp
qed

text \<open>The same in numbers, for a sum below \<open>2 ^ 64\<close>.\<close>

lemma Return_clamps_fits:
  assumes "\<not> (0 < underflow mm \<and> amt \<le> underflow mm)"
    and "unat (available mm) + (unat amt - unat (underflow mm)) < 2 ^ 64"
    and "unat (base mm) < unat (available mm) + (unat amt - unat (underflow mm))"
  shows "Return dm mm amt =
           (fst (countGC dm mm amt)
              @ [Critical ''renter memory manager being used incorrectly, too much memory returned'']
              @ fst (drain ((snd (countGC dm mm amt))\<lparr>underflow := 0, available := base mm\<rparr>)),
            snd (drain ((snd (countGC dm mm amt))\<lparr>underflow := 0, available := base mm\<rparr>)))"
proof -
  have "underflow mm \<le> amt"
    using assms(1) by (cases "0 < underflow mm") (auto simp: word_gt_0)
  then have d: "unat (amt - underflow mm) = unat amt - unat (underflow mm)"
    by (rule unat_sub)
  have "unat (available mm) + unat (amt - underflow mm) < 2 ^ LENGTH(64)"
    using assms(2) by (simp add: d)
  then have "unat (available mm + (amt - underflow mm)) =
               unat (available mm) + unat (amt - underflow mm)"
    by (simp only: unat_add_lem)
  with assms(3) have "base mm < available mm + (amt - underflow mm)"
    by (simp add: word_less_nat_alt d)
  with assms(1) show ?thesis
    by (rule Return_clamps_and_drains)
qed

text \<open>
  \<open>Return\<close> adds the amount to the counter as a \<open>uint64\<close> and compares the stored
  sum with the threshold.
\<close>

lemma Return_counts_for_GC:
  "memSinceGC (snd (Return dm mm amt)) =
     (if dm < memSinceGC mm + amt then 0 else memSinceGC mm + amt)
   \<and> (\<exists>rest. fst (Return dm mm amt) =
         (if dm < memSinceGC mm + amt then [RuntimeGC, FreeOSMemory] else []) @ rest
         \<and> RuntimeGC \<notin> set rest \<and> FreeOSMemory \<notin> set rest)"
proof (cases "0 < underflow mm \<and> amt \<le> underflow mm")
  case True
  then have "Return dm mm amt =
     (fst (countGC dm mm amt), (snd (countGC dm mm amt))\<lparr>underflow := underflow mm - amt\<rparr>)"
    by (simp add: Return_paydown)
  then show ?thesis
    by (simp add: countGC_result)
next
  case False
  define added where
    "added = addAvailable ((snd (countGC dm mm amt))\<lparr>underflow := 0\<rparr>) (amt - underflow mm)"
  have r: "Return dm mm amt =
      (fst (countGC dm mm amt) @ fst added @ fst (drain (snd added)), snd (drain (snd added)))"
    using Return_full [OF False] by (simp add: added_def)
  have ev: "RuntimeGC \<notin> set (fst added @ fst (drain (snd added)))"
      "FreeOSMemory \<notin> set (fst added @ fst (drain (snd added)))"
    using addAvailable_events drain_events by (simp_all add: added_def)
  have m: "memSinceGC (snd (drain (snd added))) = memSinceGC (snd (countGC dm mm amt))"
    by (simp add: added_def)
  have e: "\<exists>rest. fst (Return dm mm amt) = fst (countGC dm mm amt) @ rest
         \<and> RuntimeGC \<notin> set rest \<and> FreeOSMemory \<notin> set rest"
    using ev unfolding r by (intro exI [of _ "fst added @ fst (drain (snd added))"]) simp
  show ?thesis
    using e m by (simp add: r countGC_result)
qed

text \<open>The same in numbers, for a sum below \<open>2 ^ 64\<close>.\<close>

lemma Return_counts_fits:
  assumes "unat (memSinceGC mm) + unat amt < 2 ^ 64"
  shows "unat (memSinceGC (snd (Return dm mm amt))) =
           (if unat dm < unat (memSinceGC mm) + unat amt then 0
            else unat (memSinceGC mm) + unat amt)"
proof -
  have "unat (memSinceGC mm) + unat amt < 2 ^ LENGTH(64)"
    using assms by simp
  then have "unat (memSinceGC mm + amt) = unat (memSinceGC mm) + unat amt"
    by (simp only: unat_add_lem)
  then show ?thesis
    using Return_counts_for_GC [of dm mm amt] by (simp add: word_less_nat_alt)
qed

section \<open>Claims\<close>

subsection \<open>The admission predicate\<close>

text \<open>
  Claim C1. \<open>try(amount, priority)\<close> is to return true with \<open>available\<close> lowered by
  \<open>amount\<close> exactly when \<open>priority\<close> holds and \<open>available \<ge> amount\<close>, or \<open>priority\<close>
  does not hold and \<open>available \<ge> amount + priorityReserve\<close>; failing that, true with
  \<open>available = 0\<close> and \<open>underflow = amount - base\<close> exactly when \<open>available = base\<close>
  and \<open>amount \<ge> available\<close>; and false with no change otherwise. For every request
  that fits this is lemma \<open>try_mm_fits\<close>. The code tests the \<open>uint64\<close> sum
  \<open>amount + priorityReserve\<close> first and for either class, so a sum that wraps around
  passes the test: on a new manager with \<open>base = 5\<close> and \<open>priorityReserve = 1\<close>, a
  priority request for \<open>2 ^ 64 - 1\<close> does not satisfy \<open>available \<ge> amount\<close> and
  satisfies the test of the oversized grant, yet \<open>try\<close> takes the normal grant and
  leaves \<open>available = 6\<close>, with \<open>underflow\<close> untouched.
\<close>

theorem try_normal_grant_on_wrapped_sum:
  "try_mm (newMemoryManager 5 1) 18446744073709551615 True =
     (True, (newMemoryManager 5 1)\<lparr>available := 6\<rparr>)
   \<and> \<not> 18446744073709551615 \<le> available (newMemoryManager 5 1)
   \<and> oversizedGrant (newMemoryManager 5 1) 18446744073709551615"
  by (simp add: try_mm_def normalGrant_def oversizedGrant_def newMemoryManager_def)

subsection \<open>The accounting invariant\<close>

text \<open>
  Claim C2. In every state that \<open>newMemoryManager\<close>, \<open>Request\<close> and \<open>Return\<close> can
  produce, \<open>available \<le> base\<close>, and \<open>underflow > 0\<close> implies \<open>available = 0\<close>. When
  every request fits this is lemma \<open>fit_reachable_accounted\<close>; returned amounts need no
  condition. A request whose sum with the reserve wraps around breaks both parts: on a
  new manager with \<open>base = 10\<close> and \<open>priorityReserve = 3\<close>, a normal request for
  \<open>2 ^ 64 - 3\<close> is granted and leaves \<open>available = 13\<close>; and the same request after an
  oversized grant of 15 leaves \<open>available = 3\<close> while \<open>underflow = 5\<close>.
\<close>

theorem Request_breaks_accounting:
  "fst (Request (newMemoryManager 10 3) 18446744073709551613 False 0) = Granted
   \<and> available (snd (Request (newMemoryManager 10 3) 18446744073709551613 False 0)) = 13
   \<and> base (snd (Request (newMemoryManager 10 3) 18446744073709551613 False 0)) = 10
   \<and> fst (Request (snd (Request (newMemoryManager 10 3) 15 False 0))
            18446744073709551613 False 1) = Granted
   \<and> available (snd (Request (snd (Request (newMemoryManager 10 3) 15 False 0))
                  18446744073709551613 False 1)) = 3
   \<and> underflow (snd (Request (snd (Request (newMemoryManager 10 3) 15 False 0))
                  18446744073709551613 False 1)) = 5"
  by (simp add: Request_def try_mm_def normalGrant_def oversizedGrant_def newMemoryManager_def
      memoryPriorityHigh_def Let_def)

subsection \<open>Priority waiters are released first\<close>

text \<open>
  Claim C3. A \<open>Return\<close> never releases a normal waiter while a priority waiter remains
  queued. \<open>Return\<close> releases the first \<open>k\<close> priority waiters and then the first \<open>j\<close>
  normal waiters, closing their channels in that order, and leaves the rest of each queue
  as it was; if a priority waiter is still queued when \<open>Return\<close> ends (the head of the
  priority queue was not admitted, or the call ended in the underflow), then \<open>j = 0\<close>:
  no normal waiter was released, whatever the amounts.
\<close>

theorem Return_priority_first:
  "\<exists>k j. k \<le> length (priorityFifo mm) \<and> j \<le> length (fifo mm)
     \<and> priorityFifo (snd (Return dm mm amt)) = drop k (priorityFifo mm)
     \<and> fifo (snd (Return dm mm amt)) = drop j (fifo mm)
     \<and> closed (fst (Return dm mm amt)) =
         map done_chan (take k (priorityFifo mm)) @ map done_chan (take j (fifo mm))
     \<and> (priorityFifo (snd (Return dm mm amt)) \<noteq> [] \<longrightarrow> j = 0)"
proof (cases "0 < underflow mm \<and> amt \<le> underflow mm")
  case True
  then show ?thesis
    by (intro exI [of _ 0]) (simp add: Return_paydown)
next
  case False
  define added where
    "added = addAvailable ((snd (countGC dm mm amt))\<lparr>underflow := 0\<rparr>) (amt - underflow mm)"
  have r: "Return dm mm amt =
      (fst (countGC dm mm amt) @ fst added @ fst (drain (snd added)), snd (drain (snd added)))"
    using Return_full [OF False] by (simp add: added_def)
  have q: "priorityFifo (snd added) = priorityFifo mm" "fifo (snd added) = fifo mm"
    by (simp_all add: added_def)
  from drain_shape [of "snd added"] obtain k j where
    "k \<le> length (priorityFifo mm)" "j \<le> length (fifo mm)"
    "priorityFifo (snd (drain (snd added))) = drop k (priorityFifo mm)"
    "fifo (snd (drain (snd added))) = drop j (fifo mm)"
    "fst (drain (snd added)) = map (\<lambda>r. CloseChan (done_chan r)) (take k (priorityFifo mm))
                        @ map (\<lambda>r. CloseChan (done_chan r)) (take j (fifo mm))"
    "priorityFifo (snd (drain (snd added))) \<noteq> [] \<longrightarrow> j = 0"
    unfolding q by blast
  then show ?thesis
    by (intro exI [of _ k] exI [of _ j]) (simp add: r added_def)
qed

text \<open>
  A pool of 10 with nothing available, a priority waiter for 8 and a normal waiter for
  1: after \<open>Return(5)\<close> the priority waiter is still queued, and so is the normal one,
  although 5 bytes would cover it.
\<close>

theorem Return_priority_first_witness:
  "priorityFifo (snd (Return 1073741824
      \<lparr>available = 0, base = 10, memSinceGC = 0, priorityReserve = 0, underflow = 0,
       fifo = [\<lparr>amount = 1, done_chan = 2\<rparr>],
       priorityFifo = [\<lparr>amount = 8, done_chan = 1\<rparr>], blocking = 1\<rparr> 5)) \<noteq> []
   \<and> fifo (snd (Return 1073741824
      \<lparr>available = 0, base = 10, memSinceGC = 0, priorityReserve = 0, underflow = 0,
       fifo = [\<lparr>amount = 1, done_chan = 2\<rparr>],
       priorityFifo = [\<lparr>amount = 8, done_chan = 1\<rparr>], blocking = 1\<rparr> 5))
      = [\<lparr>amount = 1, done_chan = 2\<rparr>]"
proof -
  let ?mm = "\<lparr>available = 0, base = 10, memSinceGC = 0, priorityReserve = 0, underflow = 0,
       fifo = [\<lparr>amount = 1, done_chan = 2\<rparr>],
       priorityFifo = [\<lparr>amount = 8, done_chan = 1\<rparr>], blocking = 1\<rparr> :: memoryManager"
  have ne: "priorityFifo (snd (Return 1073741824 ?mm 5)) \<noteq> []"
    by (simp add: Return_def countGC_def addAvailable_def drain_def drainPriority.simps
      try_mm_def normalGrant_def oversizedGrant_def memoryPriorityHigh_def Let_def)
  from Return_priority_first [of ?mm 1073741824 5] obtain k j where
    "fifo (snd (Return 1073741824 ?mm 5)) = drop j (fifo ?mm)"
    "priorityFifo (snd (Return 1073741824 ?mm 5)) \<noteq> [] \<longrightarrow> j = 0"
    by blast
  with ne show ?thesis by simp
qed

subsection \<open>A request that is granted and returned\<close>

text \<open>
  Claim C4. For every state of the manager, a \<open>Request(n, p)\<close> that returns true,
  followed at once by \<open>Return(n)\<close>, is to leave the state that existed before the
  request, \<open>memSinceGC\<close> apart. A request returns true here when it is granted
  without waiting. On every state reached by requests that fit, of a manager with
  \<open>base > 0\<close>, this is lemma \<open>fit_reachable_roundtrip\<close>. With \<open>base = 0\<close> the idle
  test of \<open>try\<close>, \<open>available = base\<close>, also holds while an oversized grant is out:
  after a first request for 5 (granted, \<open>underflow = 5\<close>) a request for 7 is granted
  too and overwrites the underflow, \<open>Return(7)\<close> then leaves \<open>underflow = 0\<close> instead
  of 5, and the return of the first 5 ends in the report to \<open>build.Critical\<close>.
\<close>

theorem Request_Return_changes_underflow:
  "fst (Request (snd (Request (newMemoryManager 0 0) 5 False 0)) 7 False 1) = Granted
   \<and> underflow (snd (Request (newMemoryManager 0 0) 5 False 0)) = 5
   \<and> underflow (snd (Return 1073741824
        (snd (Request (snd (Request (newMemoryManager 0 0) 5 False 0)) 7 False 1)) 7)) = 0
   \<and> fst (Return 1073741824 (snd (Return 1073741824
        (snd (Request (snd (Request (newMemoryManager 0 0) 5 False 0)) 7 False 1)) 7)) 5) =
       [Critical ''renter memory manager being used incorrectly, too much memory returned'']"
  by (simp add: Request_def Return_def countGC_def addAvailable_def build_Critical_def drain_def
      drainPriority.simps drainFifo.simps try_mm_def normalGrant_def oversizedGrant_def
      newMemoryManager_def memoryPriorityHigh_def Let_def)

subsection \<open>Granted at once, or queued\<close>

text \<open>
  Claim C5. \<open>Request(amount, priority)\<close> is granted at once exactly when the priority
  queue is empty, the request has priority or the normal queue is empty, and \<open>try\<close>
  succeeds; its result is then the state \<open>try\<close> leaves, in which both queues are as
  before. In every other case the state is changed only by one new waiter with that
  amount at the back of the queue of its class (and the note sent on \<open>blocking\<close>).
\<close>

theorem Request_grants_or_queues:
  "Request mm amt priority ch =
     (if priorityFifo mm = [] \<and> (priority \<or> fifo mm = []) \<and> fst (try_mm mm amt priority) then
        (Granted, snd (try_mm mm amt priority))
      else
        (Blocked \<lparr>amount = amt, done_chan = ch\<rparr>,
         if priority then
           mm\<lparr>priorityFifo := priorityFifo mm @ [\<lparr>amount = amt, done_chan = ch\<rparr>],
              blocking := (if blocking mm < 1 then blocking mm + 1 else blocking mm)\<rparr>
         else
           mm\<lparr>fifo := fifo mm @ [\<lparr>amount = amt, done_chan = ch\<rparr>],
              blocking := (if blocking mm < 1 then blocking mm + 1 else blocking mm)\<rparr>))
   \<and> fifo (snd (try_mm mm amt priority)) = fifo mm
   \<and> priorityFifo (snd (try_mm mm amt priority)) = priorityFifo mm"
proof (cases "fst (Request mm amt priority ch) = Granted")
  case True
  then have c: "priorityFifo mm = [] \<and> (priority \<or> fifo mm = []) \<and> fst (try_mm mm amt priority)"
    by (simp add: Request_Granted_iff)
  have "Request mm amt priority ch = (Granted, snd (try_mm mm amt priority))"
    using True Request_Granted_snd [OF True] by (simp add: prod_eq_iff)
  with c show ?thesis
    by simp
next
  case False
  then have "\<not> (priorityFifo mm = [] \<and> (priority \<or> fifo mm = []) \<and> fst (try_mm mm amt priority))"
    by (simp add: Request_Granted_iff)
  with Request_Blocked [OF False] show ?thesis
    by simp
qed

text \<open>
  Three requests on a pool of 10 with a reserve of 3: a normal 7 is granted, a normal 1
  then waits (it would cut into the reserve), and a priority 1 is granted past it.
\<close>

theorem Request_grants_or_queues_witness:
  "Request (newMemoryManager 10 3) 7 False 0 =
     (Granted, (newMemoryManager 10 3)\<lparr>available := 3\<rparr>)
   \<and> Request ((newMemoryManager 10 3)\<lparr>available := 3\<rparr>) 1 False 1 =
     (Blocked \<lparr>amount = 1, done_chan = 1\<rparr>,
      (newMemoryManager 10 3)\<lparr>available := 3, fifo := [\<lparr>amount = 1, done_chan = 1\<rparr>],
        blocking := 1\<rparr>)
   \<and> Request ((newMemoryManager 10 3)\<lparr>available := 3, fifo := [\<lparr>amount = 1, done_chan = 1\<rparr>],
        blocking := 1\<rparr>) 1 True 2 =
     (Granted, (newMemoryManager 10 3)\<lparr>available := 2, fifo := [\<lparr>amount = 1, done_chan = 1\<rparr>],
        blocking := 1\<rparr>)"
  using Request_grants_or_queues [of "newMemoryManager 10 3" 7 False 0]
    Request_grants_or_queues [of "(newMemoryManager 10 3)\<lparr>available := 3\<rparr>" 1 False 1]
    Request_grants_or_queues [of "(newMemoryManager 10 3)\<lparr>available := 3,
        fifo := [\<lparr>amount = 1, done_chan = 1\<rparr>], blocking := 1\<rparr>" 1 True 2]
  by (simp add: try_mm_def normalGrant_def oversizedGrant_def newMemoryManager_def)

subsection \<open>Paying down the underflow\<close>

text \<open>
  Claim C6. If \<open>underflow > 0\<close> and \<open>Return\<close> is called with an amount of at most
  \<open>underflow\<close>, then \<open>underflow\<close> decreases by exactly that amount (the difference of
  the two numbers, without wrap-around) and the call ends there: apart from
  \<open>memSinceGC\<close> no other field changes, so \<open>available\<close> and both queues are as
  before, and no channel is closed, so no waiter is released.
\<close>

theorem Return_underflow_paydown:
  assumes "0 < underflow mm" and "amt \<le> underflow mm"
  shows "(snd (Return dm mm amt))\<lparr>memSinceGC := memSinceGC mm\<rparr> =
           mm\<lparr>underflow := underflow mm - amt\<rparr>
         \<and> underflow (snd (Return dm mm amt)) = underflow mm - amt
         \<and> unat (underflow (snd (Return dm mm amt))) = unat (underflow mm) - unat amt
         \<and> available (snd (Return dm mm amt)) = available mm
         \<and> fifo (snd (Return dm mm amt)) = fifo mm
         \<and> priorityFifo (snd (Return dm mm amt)) = priorityFifo mm
         \<and> closed (fst (Return dm mm amt)) = []"
proof -
  have r: "Return dm mm amt =
             (fst (countGC dm mm amt), (snd (countGC dm mm amt))\<lparr>underflow := underflow mm - amt\<rparr>)"
    using assms by (rule Return_paydown)
  have f: "(snd (countGC dm mm amt))\<lparr>underflow := underflow mm - amt, memSinceGC := memSinceGC mm\<rparr> =
             mm\<lparr>underflow := underflow mm - amt\<rparr>"
    by (simp add: countGC_def Let_def)
  have u: "unat (underflow mm - amt) = unat (underflow mm) - unat amt"
    using assms(2) by (simp add: unat_sub)
  show ?thesis
    by (simp add: r f u)
qed

text \<open>
  The pool of 10 after an oversized grant of 25, with a normal waiter for 1:
  \<open>Return(10)\<close> brings the underflow from 15 to 5 and releases nobody.
\<close>

theorem Return_underflow_paydown_witness:
  "underflow (snd (Return 1073741824
      \<lparr>available = 0, base = 10, memSinceGC = 0, priorityReserve = 0, underflow = 15,
       fifo = [\<lparr>amount = 1, done_chan = 1\<rparr>], priorityFifo = [], blocking = 1\<rparr> 10)) = 5
   \<and> available (snd (Return 1073741824
      \<lparr>available = 0, base = 10, memSinceGC = 0, priorityReserve = 0, underflow = 15,
       fifo = [\<lparr>amount = 1, done_chan = 1\<rparr>], priorityFifo = [], blocking = 1\<rparr> 10)) = 0
   \<and> closed (fst (Return 1073741824
      \<lparr>available = 0, base = 10, memSinceGC = 0, priorityReserve = 0, underflow = 15,
       fifo = [\<lparr>amount = 1, done_chan = 1\<rparr>], priorityFifo = [], blocking = 1\<rparr> 10)) = []"
proof -
  let ?mm = "\<lparr>available = 0, base = 10, memSinceGC = 0, priorityReserve = 0, underflow = 15,
       fifo = [\<lparr>amount = 1, done_chan = 1\<rparr>], priorityFifo = [], blocking = 1\<rparr>"
  have h1: "0 < underflow ?mm" by simp
  have h2: "10 \<le> underflow ?mm" by simp
  show ?thesis
    using Return_underflow_paydown [OF h1 h2, of 1073741824] by simp
qed

subsection \<open>Too much memory returned\<close>

text \<open>
  Claim C7. When, after the underflow is paid, adding the returned amount would make
  \<open>available\<close> exceed \<open>base\<close>, \<open>Return\<close> is to clamp \<open>available\<close> to exactly
  \<open>base\<close>, report to \<open>build.Critical\<close>, and go on to drain the queues. Where the sum
  stays below \<open>2 ^ 64\<close> this is lemma \<open>Return_clamps_fits\<close>. \<open>Return\<close> tests the
  stored \<open>uint64\<close> sum, so a sum that wraps around escapes the test: on a pool of 10
  of which 4 are granted, \<open>Return(2 ^ 64 - 1)\<close> returns far more than was granted, yet
  it leaves \<open>available = 5\<close>, less than before, and reports nothing.
\<close>

theorem Return_misses_wrapped_sum:
  "fst (Request (newMemoryManager 10 0) 4 False 0) = Granted
   \<and> available (snd (Request (newMemoryManager 10 0) 4 False 0)) = 6
   \<and> Return 1073741824 (snd (Request (newMemoryManager 10 0) 4 False 0))
        18446744073709551615 =
       ([RuntimeGC, FreeOSMemory], (newMemoryManager 10 0)\<lparr>available := 5\<rparr>)"
  by (simp add: Request_def Return_def countGC_def addAvailable_def drain_def
      drainPriority.simps drainFifo.simps try_mm_def normalGrant_def oversizedGrant_def
      newMemoryManager_def memoryPriorityHigh_def Let_def)

subsection \<open>The collection counter\<close>

text \<open>
  Claim C8. Every \<open>Return(amount)\<close> is first to increase \<open>memSinceGC\<close> by the whole
  amount, before and whatever the underflow takes of it, and whenever the counter then
  exceeds \<open>defaultMemory\<close> the collection runs and the counter is reset. Where the sum
  stays below \<open>2 ^ 64\<close> this is lemmas \<open>Return_counts_for_GC\<close> and
  \<open>Return_counts_fits\<close>. The counter is a \<open>uint64\<close> and its sum can wrap around:
  on a pool of 10 with a threshold of \<open>2 ^ 30\<close>, after a request for 4 and its return
  (the counter is 4), a request for \<open>2 ^ 64 - 1\<close> is granted as an oversized request,
  and its return takes the counter from 4 to 3 and collects nothing.
\<close>

theorem Return_counter_wraps:
  "memSinceGC (snd (Return 1073741824 (snd (Request (newMemoryManager 10 0) 4 False 0)) 4)) = 4
   \<and> fst (Request (snd (Return 1073741824 (snd (Request (newMemoryManager 10 0) 4 False 0)) 4))
          18446744073709551615 False 1) = Granted
   \<and> Return 1073741824
        (snd (Request (snd (Return 1073741824 (snd (Request (newMemoryManager 10 0) 4 False 0)) 4))
          18446744073709551615 False 1)) 18446744073709551615 =
       ([], (newMemoryManager 10 0)\<lparr>memSinceGC := 3\<rparr>)"
  by (simp add: Request_def Return_def countGC_def addAvailable_def drain_def
      drainPriority.simps drainFifo.simps try_mm_def normalGrant_def oversizedGrant_def
      newMemoryManager_def memoryPriorityHigh_def Let_def)

subsection \<open>A normal request for exactly the pool\<close>

text \<open>
  Claim C9. On an idle pool (\<open>available = base\<close>) with both queues empty and
  \<open>priorityReserve > 0\<close>, a normal request for exactly \<open>base\<close> bytes is to return true
  through the oversized grant, leaving \<open>available = 0\<close> and \<open>underflow = 0\<close>. Where
  \<open>base + priorityReserve\<close> fits this is lemma \<open>exact_base_request_fits\<close>. Where
  the sum wraps around, \<open>try\<close> takes the normal grant: on a new manager with
  \<open>base = 2 ^ 64 - 1\<close> and \<open>priorityReserve = 1\<close> the first test passes. And with
  \<open>base = 5\<close> and \<open>priorityReserve = 2 ^ 64 - 3\<close>, three granted requests (for
  \<open>2 ^ 64 - 1\<close>, 3 and \<open>2 ^ 64 - 8\<close>) lead to a pool with \<open>available = base\<close>, empty
  queues and \<open>underflow = 2 ^ 64 - 6\<close>, where the request for \<open>base\<close> is granted by
  the first test and leaves that underflow in place.
\<close>

theorem exact_base_request_on_wrapped_sum:
  "normalGrant (newMemoryManager 18446744073709551615 1) 18446744073709551615 False
   \<and> snd (Request (snd (Request (snd (Request (newMemoryManager 5 18446744073709551613)
            18446744073709551615 False 0)) 3 False 1)) 18446744073709551608 False 2) =
       \<lparr>available = 5, base = 5, memSinceGC = 0, priorityReserve = 18446744073709551613,
        underflow = 18446744073709551610, fifo = [], priorityFifo = [], blocking = 0\<rparr>
   \<and> normalGrant
       \<lparr>available = 5, base = 5, memSinceGC = 0, priorityReserve = 18446744073709551613,
        underflow = 18446744073709551610, fifo = [], priorityFifo = [], blocking = 0\<rparr> 5 False
   \<and> Request
       \<lparr>available = 5, base = 5, memSinceGC = 0, priorityReserve = 18446744073709551613,
        underflow = 18446744073709551610, fifo = [], priorityFifo = [], blocking = 0\<rparr> 5 False 3 =
       (Granted,
        \<lparr>available = 0, base = 5, memSinceGC = 0, priorityReserve = 18446744073709551613,
         underflow = 18446744073709551610, fifo = [], priorityFifo = [], blocking = 0\<rparr>)"
  by (simp add: Request_def try_mm_def normalGrant_def oversizedGrant_def newMemoryManager_def
      memoryPriorityHigh_def Let_def)

subsection \<open>A reserve above the pool\<close>

text \<open>
  Claim C10. \<open>newMemoryManager\<close> stores its arguments unchecked, so a manager may have
  \<open>priorityReserve > base\<close>; in such a manager no normal request, of any amount, is to
  pass the normal grant, so that normal requests succeed only by the oversized grant on
  an idle pool. For requests that fit this is lemma \<open>reserve_above_base_fits\<close>, with
  the invariant of lemma \<open>fit_reachable_accounted\<close>. A request whose sum with the reserve
  wraps around passes the first test: with \<open>base = 5\<close> and \<open>priorityReserve = 7\<close>, a
  normal request for \<open>2 ^ 64 - 7\<close> is granted by the normal grant and leaves
  \<open>available = 12\<close>.
\<close>

theorem reserve_above_base_on_wrapped_sum:
  "base (newMemoryManager 5 7) < priorityReserve (newMemoryManager 5 7)
   \<and> normalGrant (newMemoryManager 5 7) 18446744073709551609 False
   \<and> Request (newMemoryManager 5 7) 18446744073709551609 False 0 =
       (Granted, (newMemoryManager 5 7)\<lparr>available := 12\<rparr>)"
  by (simp add: Request_def try_mm_def normalGrant_def newMemoryManager_def
      memoryPriorityHigh_def Let_def)

end
